theory Spec2Isabelle
  imports Main "HOL-Library.Word"
begin

unbundle bit_operations_syntax

section \<open>Data model\<close>

text \<open>
  The package \<^verbatim>\<open>types\<close> (file \<^verbatim>\<open>jsonrpc/types/serialize.go\<close>) works on Go's
  \<^verbatim>\<open>[]byte\<close>, \<^verbatim>\<open>[][]byte\<close> and \<^verbatim>\<open>uint32\<close>. A byte is an 8-bit word, a
  \<^verbatim>\<open>uint32\<close> a 32-bit word whose arithmetic wraps around, a slice is a list, and
  \<^verbatim>\<open>len\<close> is \<open>length\<close>. The conversion \<^verbatim>\<open>uint32(len(x))\<close> keeps the low 32
  bits of the length, which is what \<open>of_nat\<close> into \<open>32 word\<close> does.

  The names are those of the Go file, but for two variables whose names are constants of
  HOL: \<^verbatim>\<open>size\<close> is written \<open>sz\<close> and \<^verbatim>\<open>o\<close> is written \<open>opt\<close>.
\<close>

type_synonym byte = "8 word"
type_synonym u32 = "32 word"

text \<open>\<^verbatim>\<open>const u32Size uint32 = 4\<close>\<close>

definition u32Size :: u32 where
  "u32Size = 4"

text \<open>
  Run-time panics of the Go code are values of the model: an index outside a slice and a
  method call through a nil interface.
\<close>

datatype panic = IndexOutOfRange | NilDereference

text \<open>
  What a call can end with besides a result: a panic of the serializer itself, or the
  error value \<^verbatim>\<open>err\<close> that an item's \<^verbatim>\<open>Serialize\<close> returned.
\<close>

datatype 'e failure = Panic panic | Error 'e

text \<open>
  \<^verbatim>\<open>type MolSerializer interface { Serialize() ([]byte, error) }\<close>

  An interface value is either nil (\<open>None\<close>) or an object whose method \<^verbatim>\<open>Serialize\<close>
  can be called. The method is arbitrary code of the caller: it is a function of the
  state \<open>'w\<close> it may read and change, returning the new state with either the error
  (\<open>Inl\<close>, Go's \<^verbatim>\<open>err != nil\<close>) or the bytes (\<open>Inr\<close>).
\<close>

type_synonym ('e, 'w) serialize = "'w \<Rightarrow> ('e + byte list) \<times> 'w"
type_synonym ('e, 'w) MolSerializer = "('e, 'w) serialize option"

section \<open>The little-endian primitive\<close>

text \<open>
  \<^verbatim>\<open>binary.LittleEndian.PutUint32(b, v)\<close> of Go's standard library stores
  \<^verbatim>\<open>byte(v)\<close>, \<^verbatim>\<open>byte(v >> 8)\<close>, \<^verbatim>\<open>byte(v >> 16)\<close>, \<^verbatim>\<open>byte(v >> 24)\<close> in
  \<^verbatim>\<open>b[0]\<close> .. \<^verbatim>\<open>b[3]\<close>. It panics on a slice shorter than 4 bytes; its only caller
  here passes \<^verbatim>\<open>make([]byte, 4)\<close>.
\<close>

definition PutUint32 :: "byte list \<Rightarrow> u32 \<Rightarrow> byte list" where
  "PutUint32 b v =
     b[0 := ucast v, 1 := ucast (drop_bit 8 v), 2 := ucast (drop_bit 16 v),
       3 := ucast (drop_bit 24 v)]"

text \<open>
  \<^verbatim>\<open>
  func serializeUint32(n uint32) []byte {
      b := make([]byte, 4)
      binary.LittleEndian.PutUint32(b, n)
      return b
  }
  \<close>
\<close>

definition serializeUint32 :: "u32 \<Rightarrow> byte list" where
  "serializeUint32 n = (let b = replicate 4 0 in PutUint32 b n)"

section \<open>Loops over slices\<close>

text \<open>
  The loop \<^verbatim>\<open>for i := 0; i < len(xs); i++ { b.Write(xs[i]) }\<close>, from index \<open>i\<close> on,
  with the \<^verbatim>\<open>bytes.Buffer\<close> as the list of the bytes written so far. Three functions
  of the file have this loop: \<^verbatim>\<open>SerializeStruct\<close> (over \<^verbatim>\<open>fields\<close>),
  \<^verbatim>\<open>SerializeFixVec\<close> and \<^verbatim>\<open>SerializeDynVec\<close> (over \<^verbatim>\<open>items\<close>), and
  \<^verbatim>\<open>SerializeTable\<close> has it over \<^verbatim>\<open>fields\<close>.
\<close>

function writeAll :: "byte list list \<Rightarrow> nat \<Rightarrow> byte list \<Rightarrow> byte list" where
  "writeAll xs i b = (if i < length xs then writeAll xs (Suc i) (b @ xs ! i) else b)"
  by pat_completeness auto
termination
  by (relation "measure (\<lambda>(xs, i, b). length xs - i)") auto

declare writeAll.simps [simp del]

text \<open>
  The loop
  \<^verbatim>\<open>for i := 0; i < len(items); i++ { b.Write(serializeUint32(offsets[i])) }\<close>,
  from index \<open>i\<close> on; \<open>n\<close> is \<^verbatim>\<open>len(items)\<close>, the length of \<^verbatim>\<open>offsets\<close> as
  well. It is in \<^verbatim>\<open>SerializeDynVec\<close> and, over \<^verbatim>\<open>fields\<close>, in
  \<^verbatim>\<open>SerializeTable\<close>.
\<close>

function writeOffsets :: "u32 list \<Rightarrow> nat \<Rightarrow> nat \<Rightarrow> byte list \<Rightarrow> byte list" where
  "writeOffsets offsets n i b =
     (if i < n then writeOffsets offsets n (Suc i) (b @ serializeUint32 (offsets ! i))
      else b)"
  by pat_completeness auto
termination
  by (relation "measure (\<lambda>(offsets, n, i, b). n - i)") auto

declare writeOffsets.simps [simp del]

text \<open>
  The loop that sums the size and fills the offset table, from index \<open>i\<close> on:
  \<^verbatim>\<open>
  for i := 0; i < len(items); i++ {
      size += u32Size + uint32(len(items[i]))
      if i != 0 {
          offsets[i] = offsets[i-1] + uint32(len(items[i-1]))
      }
  }
  \<close>
  The slice \<^verbatim>\<open>offsets\<close> has \<^verbatim>\<open>len(items)\<close> elements, so every index the loop uses
  is inside it. \<^verbatim>\<open>SerializeTable\<close> has the same loop, with \<^verbatim>\<open>fields\<close> for
  \<^verbatim>\<open>items\<close>.
\<close>

function sizeOffsets :: "byte list list \<Rightarrow> nat \<Rightarrow> u32 \<Rightarrow> u32 list \<Rightarrow> u32 \<times> u32 list" where
  "sizeOffsets items i sz offsets =
     (if i < length items then
        sizeOffsets items (Suc i) (sz + (u32Size + of_nat (length (items ! i))))
          (if i \<noteq> 0
           then offsets[i := offsets ! (i - 1) + of_nat (length (items ! (i - 1)))]
           else offsets)
      else (sz, offsets))"
  by pat_completeness auto
termination
  by (relation "measure (\<lambda>(items, i, sz, offsets). length items - i)") auto

declare sizeOffsets.simps [simp del]

section \<open>The serializers\<close>

text \<open>
  \<^verbatim>\<open>
  func SerializeStruct(fields [][]byte) []byte {
      b := new(bytes.Buffer)
      for i := 0; i < len(fields); i++ { b.Write(fields[i]) }
      return b.Bytes()
  }
  \<close>
\<close>

definition SerializeStruct :: "byte list list \<Rightarrow> byte list" where
  "SerializeStruct fields = (let b = [] in writeAll fields 0 b)"


text \<open>
  \<^verbatim>\<open>
  func SerializeDynVec(items [][]byte) []byte {
      size := u32Size
      if len(items) == 0 { return serializeUint32(size) }
      offsets := make([]uint32, len(items))
      offsets[0] = size + u32Size*uint32(len(items))
      for i := 0; i < len(items); i++ {
          size += u32Size + uint32(len(items[i]))
          if i != 0 { offsets[i] = offsets[i-1] + uint32(len(items[i-1])) }
      }
      b := new(bytes.Buffer)
      b.Write(serializeUint32(size))
      for i := 0; i < len(items); i++ { b.Write(serializeUint32(offsets[i])) }
      for i := 0; i < len(items); i++ { b.Write(items[i]) }
      return b.Bytes()
  }
  \<close>
  The three loops are \<open>sizeOffsets\<close>, \<open>writeOffsets\<close> and \<open>writeAll\<close>, each run from
  index 0.
\<close>

definition SerializeDynVec :: "byte list list \<Rightarrow> byte list" where
  "SerializeDynVec items =
     (let sz = u32Size in
      if length items = 0 then serializeUint32 sz
      else
        let offsets = replicate (length items) 0;
            offsets = offsets[0 := sz + u32Size * of_nat (length items)];
            (sz, offsets) = sizeOffsets items 0 sz offsets;
            b = [];
            b = b @ serializeUint32 sz;
            b = writeOffsets offsets (length items) 0 b
        in writeAll items 0 b)"

text \<open>
  \<^verbatim>\<open>
  func SerializeTable(fields [][]byte) []byte {
      size := u32Size
      offsets := make([]uint32, len(fields))
      offsets[0] = u32Size + u32Size*uint32(len(fields))
      for i := 0; i < len(fields); i++ {
          size += u32Size + uint32(len(fields[i]))
          if i != 0 { offsets[i] = offsets[i-1] + uint32(len(fields[i-1])) }
      }
      b := new(bytes.Buffer)
      b.Write(serializeUint32(size))
      for i := 0; i < len(fields); i++ { b.Write(serializeUint32(offsets[i])) }
      for i := 0; i < len(fields); i++ { b.Write(fields[i]) }
      return b.Bytes()
  }
  \<close>
  There is no test of \<^verbatim>\<open>len(fields) == 0\<close> here: the assignment to
  \<^verbatim>\<open>offsets[0]\<close> is made on a slice of \<^verbatim>\<open>len(fields)\<close> elements, and Go panics
  with an index out of range when that slice is empty.
\<close>

definition SerializeTable :: "byte list list \<Rightarrow> panic + byte list" where
  "SerializeTable fields =
     (let sz = u32Size;
          offsets = replicate (length fields) 0
      in
        if \<not> 0 < length offsets then Inl IndexOutOfRange
        else
          let offsets = offsets[0 := u32Size + u32Size * of_nat (length fields)];
              (sz, offsets) = sizeOffsets fields 0 sz offsets;
              b = [];
              b = b @ serializeUint32 sz;
              b = writeOffsets offsets (length fields) 0 b
          in Inr (writeAll fields 0 b))"

text \<open>
  \<^verbatim>\<open>
  func SerializeArray(items []MolSerializer) ([][]byte, error) {
      ret := make([][]byte, len(items))
      for i := 0; i < len(items); i++ {
          bytes, err := items[i].Serialize()
          if err != nil { return nil, err }
          ret[i] = bytes
      }
      return ret, nil
  }
  \<close>
  The loop from index \<open>i\<close> on, with the slice \<^verbatim>\<open>ret\<close> and the state the items'
  methods act on. Calling \<^verbatim>\<open>Serialize\<close> through a nil interface panics.
\<close>

function SerializeArray_loop ::
  "('e, 'w) MolSerializer list \<Rightarrow> nat \<Rightarrow> byte list list \<Rightarrow> 'w
     \<Rightarrow> ('e failure + byte list list) \<times> 'w" where
  "SerializeArray_loop items i ret w =
     (if i < length items then
        (case items ! i of
           None \<Rightarrow> (Inl (Panic NilDereference), w)
         | Some serialize \<Rightarrow>
             (case serialize w of
                (Inl err, w') \<Rightarrow> (Inl (Error err), w')
              | (Inr bytes, w') \<Rightarrow> SerializeArray_loop items (Suc i) (ret[i := bytes]) w'))
      else (Inr ret, w))"
  by pat_completeness auto
termination
  by (relation "measure (\<lambda>(items, i, ret, w). length items - i)") auto

declare SerializeArray_loop.simps [simp del]

definition SerializeArray ::
  "('e, 'w) MolSerializer list \<Rightarrow> 'w \<Rightarrow> ('e failure + byte list list) \<times> 'w" where
  "SerializeArray items w =
     (let ret = replicate (length items) [] in SerializeArray_loop items 0 ret w)"

text \<open>
  \<^verbatim>\<open>
  func SerializeOption(o MolSerializer) ([]byte, error) {
      if o == nil { return []byte{}, nil }
      return o.Serialize()
  }
  \<close>
\<close>

definition SerializeOption :: "('e, 'w) MolSerializer \<Rightarrow> 'w \<Rightarrow> ('e + byte list) \<times> 'w" where
  "SerializeOption opt w =
     (case opt of
        None \<Rightarrow> (Inr [], w)
      | Some serialize \<Rightarrow> serialize w)"

section \<open>Reading an encoding back\<close>

text \<open>
  The package only encodes. To say what an encoding records, the fields of a header are
  read the way a consumer of the format reads them.

  \<^verbatim>\<open>binary.LittleEndian.Uint32(b)\<close> of Go's standard library, the inverse of
  \<^verbatim>\<open>PutUint32\<close>:
  \<^verbatim>\<open>uint32(b[0]) | uint32(b[1])<<8 | uint32(b[2])<<16 | uint32(b[3])<<24\<close>.
\<close>

definition Uint32 :: "byte list \<Rightarrow> u32" where
  "Uint32 b =
     ucast (b ! 0) OR push_bit 8 (ucast (b ! 1)) OR push_bit 16 (ucast (b ! 2))
       OR push_bit 24 (ucast (b ! 3))"

text \<open>Go's slice expression \<^verbatim>\<open>b[lo:hi]\<close>, for \<open>lo \<le> hi \<le> length b\<close>.\<close>

definition slice :: "byte list \<Rightarrow> nat \<Rightarrow> nat \<Rightarrow> byte list" where
  "slice b lo hi = take (hi - lo) (drop lo b)"

text \<open>The total size recorded in bytes 0 to 3 of a DynVec or Table.\<close>

definition dynvecSize :: "byte list \<Rightarrow> nat" where
  "dynvecSize out = unat (Uint32 (slice out 0 4))"

text \<open>The \<open>i\<close>-th offset field: the four bytes from position \<open>4 + 4 * i\<close>.\<close>

definition dynvecOffset :: "byte list \<Rightarrow> nat \<Rightarrow> nat" where
  "dynvecOffset out i = unat (Uint32 (slice out (4 + 4 * i) (8 + 4 * i)))"

text \<open>
  The number of items a header declares: none when the size is 4, else the first offset
  is where the offset table ends, and the table has 4 bytes for each item.
\<close>

definition dynvecCount :: "byte list \<Rightarrow> nat" where
  "dynvecCount out = (if dynvecSize out = 4 then 0 else dynvecOffset out 0 div 4 - 1)"

text \<open>
  Item \<open>i\<close> of \<open>n\<close>: from its offset to the next offset, the last item to the recorded
  total size.
\<close>

definition dynvecItem :: "byte list \<Rightarrow> nat \<Rightarrow> nat \<Rightarrow> byte list" where
  "dynvecItem out n i =
     slice out (dynvecOffset out i)
       (if Suc i < n then dynvecOffset out (Suc i) else dynvecSize out)"

definition sliceDynVec :: "byte list \<Rightarrow> byte list list" where
  "sliceDynVec out = map (dynvecItem out (dynvecCount out)) [0..<dynvecCount out]"

text \<open>
  The numbers the layout is described with: the length \<open>4 + 4 * N + sum of the item
  lengths\<close> of a whole DynVec, the position at which item \<open>i\<close> starts in it, and the
  offset table that holds these positions.
\<close>

definition encodedSize :: "byte list list \<Rightarrow> nat" where
  "encodedSize items = 4 + 4 * length items + sum_list (map length items)"

definition itemStart :: "byte list list \<Rightarrow> nat \<Rightarrow> nat" where
  "itemStart items i = 4 + 4 * length items + sum_list (map length (take i items))"

definition offsetTable :: "byte list list \<Rightarrow> byte list" where
  "offsetTable items =
     concat (map (\<lambda>j. serializeUint32 (of_nat (itemStart items j))) [0..<length items])"

section \<open>The little-endian primitive, proved\<close>

lemma serializeUint32_bytes:
  "serializeUint32 n = [ucast n, ucast (drop_bit 8 n), ucast (drop_bit 16 n), ucast (drop_bit 24 n)]"
  by (simp add: serializeUint32_def PutUint32_def numeral_eq_Suc)

lemma length_serializeUint32: "length (serializeUint32 n) = 4"
  by (simp add: serializeUint32_bytes)

lemma Uint32_serializeUint32: "Uint32 (serializeUint32 n) = n"
proof (rule bit_word_eqI)
  fix k :: nat
  assume k: "k < LENGTH(32)"
  consider "k < 8" | "8 \<le> k" "k < 16" | "16 \<le> k" "k < 24" | "24 \<le> k" "k < 32"
    using k by fastforce
  then show "bit (Uint32 (serializeUint32 n)) k = bit n k"
    by cases (auto simp add: serializeUint32_bytes Uint32_def bit_simps)
qed

lemma unat_byte0: "unat (ucast (n::u32) :: byte) = unat n mod 256"
  by (simp add: unsigned_ucast_eq take_bit_eq_mod)

lemma unat_byte_k: "unat (ucast (drop_bit k (n::u32)) :: byte) = unat n div 2 ^ k mod 256"
  unfolding unsigned_ucast_eq unat_drop_bit_eq by (simp add: take_bit_eq_mod drop_bit_eq_div)

lemma unat_of_nat_u32: "n < 2 ^ 32 \<Longrightarrow> unat (of_nat n :: u32) = n"
  by (simp add: unat_of_nat)

text \<open>
  Claim C6. For every 32-bit \<open>n\<close>, \<open>serializeUint32 n\<close> has exactly 4 bytes, byte \<open>k\<close> is
  the \<open>k\<close>-th least significant byte of \<open>n\<close> (the least significant byte comes first),
  and reading the 4 bytes back as a little-endian unsigned integer gives \<open>n\<close>. The function
  is total: it has no error result.
\<close>

theorem serializeUint32_little_endian:
  "length (serializeUint32 n) = 4
   \<and> unat (serializeUint32 n ! 0) = unat n mod 256
   \<and> unat (serializeUint32 n ! 1) = unat n div 2 ^ 8 mod 256
   \<and> unat (serializeUint32 n ! 2) = unat n div 2 ^ 16 mod 256
   \<and> unat (serializeUint32 n ! 3) = unat n div 2 ^ 24 mod 256
   \<and> Uint32 (serializeUint32 n) = n"
proof -
  have "unat (serializeUint32 n ! 0) = unat n mod 256"
    by (simp add: serializeUint32_bytes unat_byte0)
  moreover have "unat (serializeUint32 n ! 1) = unat n div 2 ^ 8 mod 256"
    unfolding serializeUint32_bytes using unat_byte_k [of 8 n] by simp
  moreover have "unat (serializeUint32 n ! 2) = unat n div 2 ^ 16 mod 256"
    unfolding serializeUint32_bytes using unat_byte_k [of 16 n] by simp
  moreover have "unat (serializeUint32 n ! 3) = unat n div 2 ^ 24 mod 256"
    unfolding serializeUint32_bytes using unat_byte_k [of 24 n] by simp
  ultimately show ?thesis
    using length_serializeUint32 [of n] Uint32_serializeUint32 [of n] by blast
qed

section \<open>The loops in closed form\<close>

lemma writeAll_eq: "writeAll xs i b = b @ concat (drop i xs)"
proof (induction xs i b rule: writeAll.induct)
  case (1 xs i b)
  show ?case
  proof (cases "i < length xs")
    case True
    then show ?thesis
      using 1 by (subst writeAll.simps) (simp add: Cons_nth_drop_Suc [symmetric])
  next
    case False
    then show ?thesis by (subst writeAll.simps) simp
  qed
qed

lemma writeOffsets_eq:
  "n \<le> length offsets \<Longrightarrow>
   writeOffsets offsets n i b = b @ concat (map serializeUint32 (drop i (take n offsets)))"
proof (induction offsets n i b rule: writeOffsets.induct)
  case (1 offsets n i b)
  show ?case
  proof (cases "i < n")
    case True
    with "1.prems" have "drop i (take n offsets) = offsets ! i # drop (Suc i) (take n offsets)"
      by (simp add: Cons_nth_drop_Suc [symmetric])
    with True 1 show ?thesis
      by (subst writeOffsets.simps) simp
  next
    case False
    then show ?thesis by (subst writeOffsets.simps) simp
  qed
qed

lemma sizeOffsets_fst:
  "fst (sizeOffsets items i sz offsets) =
     sz + of_nat (4 * (length items - i) + sum_list (map length (drop i items)))"
proof (induction items i sz offsets rule: sizeOffsets.induct)
  case (1 items i sz offsets)
  show ?case
  proof (cases "i < length items")
    case True
    then have d: "drop i items = items ! i # drop (Suc i) items"
      by (simp add: Cons_nth_drop_Suc)
    from True have l: "length items - i = Suc (length items - Suc i)"
      by simp
    show ?thesis
      using True "1.IH" [OF True]
      by (subst sizeOffsets.simps) (simp add: d l u32Size_def)
  next
    case False
    then show ?thesis by (subst sizeOffsets.simps) simp
  qed
qed

lemma itemStart_Suc:
  "i < length items \<Longrightarrow> itemStart items (Suc i) = itemStart items i + length (items ! i)"
  by (simp add: itemStart_def take_Suc_conv_app_nth)

lemma sizeOffsets_snd:
  assumes "length offsets = length items"
    and "\<And>j. j < length items \<Longrightarrow> j < max i 1 \<Longrightarrow> offsets ! j = of_nat (itemStart items j)"
  shows "snd (sizeOffsets items i sz offsets) =
           map (\<lambda>j. of_nat (itemStart items j)) [0..<length items]"
  using assms
proof (induction items i sz offsets rule: sizeOffsets.induct)
  case (1 items i sz offsets)
  show ?case
  proof (cases "i < length items")
    case False
    have "offsets = map (\<lambda>j. of_nat (itemStart items j)) [0..<length items]"
    proof (rule nth_equalityI)
      show "length offsets = length (map (\<lambda>j. of_nat (itemStart items j) :: u32) [0..<length items])"
        using "1.prems"(1) by simp
    next
      fix j assume "j < length offsets"
      with False "1.prems" show "offsets ! j = map (\<lambda>j. of_nat (itemStart items j)) [0..<length items] ! j"
        by simp
    qed
    with False show ?thesis by (subst sizeOffsets.simps) simp
  next
    case True
    let ?offsets = "if i \<noteq> 0
           then offsets[i := offsets ! (i - 1) + of_nat (length (items ! (i - 1)))]
           else offsets"
    have len: "length ?offsets = length items"
      using "1.prems"(1) by simp
    have inv: "?offsets ! j = of_nat (itemStart items j)"
      if "j < length items" "j < max (Suc i) 1" for j
    proof (cases "i = 0")
      case True
      with that "1.prems"(2) [of j] show ?thesis by simp
    next
      case i: False
      show ?thesis
      proof (cases "j = i")
        case False
        with that i "1.prems" show ?thesis by simp
      next
        case j: True
        from i True have p: "i - 1 < length items" "i - 1 < max i 1" by simp_all
        from i have s: "Suc (i - 1) = i" by simp
        have "itemStart items i = itemStart items (i - 1) + length (items ! (i - 1))"
          using itemStart_Suc [OF p(1)] s by simp
        with "1.prems"(2) [OF p] j i True "1.prems"(1) show ?thesis by simp
      qed
    qed
    have "snd (sizeOffsets items (Suc i) (sz + (u32Size + of_nat (length (items ! i)))) ?offsets)
        = map (\<lambda>j. of_nat (itemStart items j)) [0..<length items]"
      by (rule "1.IH" [OF True len inv])
    with True show ?thesis by (subst sizeOffsets.simps) simp
  qed
qed

section \<open>Struct\<close>

text \<open>
  Claim C9. \<open>SerializeStruct\<close> returns the concatenation of the fields in input order and
  nothing else: the length of the output is the sum of the field lengths, and no fields
  give the empty output. It has no error result.
\<close>

theorem SerializeStruct_concat:
  "SerializeStruct fields = concat fields
   \<and> length (SerializeStruct fields) = sum_list (map length fields)
   \<and> SerializeStruct [] = []"
  by (simp add: SerializeStruct_def writeAll_eq length_concat)

section \<open>FixVec\<close>





section \<open>DynVec\<close>

lemma SerializeDynVec_eq:
  assumes "items \<noteq> []"
  shows "SerializeDynVec items =
     serializeUint32 (of_nat (encodedSize items)) @
     concat (map (\<lambda>j. serializeUint32 (of_nat (itemStart items j))) [0..<length items]) @
     concat items"
proof -
  let ?offs = "(replicate (length items) (0::u32))[0 := u32Size + u32Size * of_nat (length items)]"
  have a: "snd (sizeOffsets items 0 u32Size ?offs) = map (\<lambda>j. of_nat (itemStart items j)) [0..<length items]"
    by (rule sizeOffsets_snd) (auto simp: itemStart_def u32Size_def)
  have b: "fst (sizeOffsets items 0 u32Size ?offs) = of_nat (encodedSize items)"
    by (simp add: sizeOffsets_fst encodedSize_def u32Size_def)
  show ?thesis
    using assms a b
    by (simp add: SerializeDynVec_def Let_def split_beta writeAll_eq writeOffsets_eq map_map comp_def)
qed

lemma drop_concat_fixed:
  "\<forall>x \<in> set xs. length x = k \<Longrightarrow> drop (k * i) (concat xs) = concat (drop i xs)"
proof (induction xs arbitrary: i)
  case Nil
  then show ?case by simp
next
  case (Cons x xs)
  then show ?case by (cases i) simp_all
qed

lemma length_concat_fixed:
  "\<forall>x \<in> set xs. length x = k \<Longrightarrow> length (concat xs) = k * length xs"
  by (induction xs) simp_all

lemma drop_concat_take:
  "drop (sum_list (map length (take i xs))) (concat xs) = concat (drop i xs)"
proof (induction xs arbitrary: i)
  case Nil
  then show ?case by simp
next
  case (Cons x xs)
  then show ?case by (cases i) simp_all
qed

lemma sum_list_take_le:
  "sum_list (map length (take i xs)) \<le> sum_list (map length (xs :: 'a list list))"
proof -
  have "sum_list (map length xs) = sum_list (map length (take i xs @ drop i xs))" by simp
  also have "\<dots> = sum_list (map length (take i xs)) + sum_list (map length (drop i xs))"
    unfolding map_append sum_list_append ..
  finally show ?thesis by simp
qed

lemma itemStart_le: "itemStart items i \<le> encodedSize items"
  by (simp add: itemStart_def encodedSize_def sum_list_take_le)

lemma length_offsetTable: "length (offsetTable items) = 4 * length items"
  unfolding offsetTable_def
  by (subst length_concat_fixed [where k = 4]) (simp_all add: length_serializeUint32)

lemma drop_offsetTable:
  assumes "i < length items"
  shows "\<exists>rest. drop (4 * i) (offsetTable items) =
           serializeUint32 (of_nat (itemStart items i)) @ rest"
proof -
  let ?tab = "map (\<lambda>j. serializeUint32 (of_nat (itemStart items j))) [0..<length items]"
  have fixed: "\<forall>x \<in> set ?tab. length x = 4"
    by (simp add: length_serializeUint32)
  have "drop (4 * i) (concat ?tab) = concat (drop i ?tab)"
    by (rule drop_concat_fixed [OF fixed])
  also have "drop i ?tab = serializeUint32 (of_nat (itemStart items i)) # drop (Suc i) ?tab"
    using assms by (simp add: Cons_nth_drop_Suc [symmetric])
  finally show ?thesis
    by (simp add: offsetTable_def)
qed

lemma SerializeDynVec_layout:
  "items \<noteq> [] \<Longrightarrow>
   SerializeDynVec items =
     serializeUint32 (of_nat (encodedSize items)) @ offsetTable items @ concat items"
  by (simp add: SerializeDynVec_eq offsetTable_def)

lemma length_SerializeDynVec:
  "items \<noteq> [] \<Longrightarrow> length (SerializeDynVec items) = encodedSize items"
  by (simp add: SerializeDynVec_layout length_serializeUint32 length_offsetTable
      encodedSize_def length_concat)

lemma dynvecSize_SerializeDynVec:
  assumes "items \<noteq> []" "encodedSize items < 2 ^ 32"
  shows "dynvecSize (SerializeDynVec items) = encodedSize items"
  using assms
  by (simp add: dynvecSize_def slice_def SerializeDynVec_layout length_serializeUint32
      Uint32_serializeUint32 unat_of_nat_u32)

lemma dynvecOffset_SerializeDynVec:
  assumes "i < length items" "encodedSize items < 2 ^ 32"
  shows "dynvecOffset (SerializeDynVec items) i = itemStart items i"
proof -
  from assms have ne: "items \<noteq> []" by auto
  obtain rest where d: "drop (4 * i) (offsetTable items) =
      serializeUint32 (of_nat (itemStart items i)) @ rest"
    using drop_offsetTable [OF assms(1)] by blast
  have "slice (SerializeDynVec items) (4 + 4 * i) (8 + 4 * i) =
      serializeUint32 (of_nat (itemStart items i))"
    using ne by (simp add: slice_def SerializeDynVec_layout length_serializeUint32 d
        drop_append [of "4 + 4 * i"])
  moreover have "itemStart items i < 2 ^ 32"
    using itemStart_le [of items i] assms(2) by simp
  ultimately show ?thesis
    by (simp add: dynvecOffset_def Uint32_serializeUint32 unat_of_nat_u32)
qed

lemma drop_itemStart:
  assumes "items \<noteq> []"
  shows "drop (itemStart items i) (SerializeDynVec items) = concat (drop i items)"
proof -
  have "itemStart items i =
      4 + (4 * length items + sum_list (map length (take i items)))"
    by (simp add: itemStart_def)
  then show ?thesis
    using assms
    by (simp add: SerializeDynVec_layout length_serializeUint32 length_offsetTable
        drop_concat_take)
qed

lemma item_at_itemStart:
  assumes "i < length items"
  shows "slice (SerializeDynVec items) (itemStart items i) (itemStart items (Suc i)) = items ! i"
proof -
  from assms have ne: "items \<noteq> []" by auto
  have "drop i items = items ! i # drop (Suc i) items"
    using assms by (simp add: Cons_nth_drop_Suc)
  then show ?thesis
    using assms by (simp add: slice_def drop_itemStart [OF ne] itemStart_Suc)
qed

lemma itemStart_length: "itemStart items (length items) = encodedSize items"
  by (simp add: itemStart_def encodedSize_def)

lemma SerializeDynVec_Nil: "SerializeDynVec [] = [4, 0, 0, 0]"
  by (simp add: SerializeDynVec_def serializeUint32_bytes u32Size_def)

lemma encodedSize_ge: "items \<noteq> [] \<Longrightarrow> 8 \<le> encodedSize items"
  by (cases items) (simp_all add: encodedSize_def)

lemma itemStart_0: "itemStart items 0 = 4 + 4 * length items"
  by (simp add: itemStart_def)

lemma dynvecCount_SerializeDynVec:
  assumes "encodedSize items < 2 ^ 32"
  shows "dynvecCount (SerializeDynVec items) = length items"
proof (cases "items = []")
  case True
  then show ?thesis
    by (simp add: dynvecCount_def dynvecSize_def slice_def SerializeDynVec_def
        Uint32_serializeUint32 length_serializeUint32 u32Size_def)
next
  case False
  then have "0 < length items" by simp
  with False assms show ?thesis
    using encodedSize_ge [OF False]
    by (simp add: dynvecCount_def dynvecSize_SerializeDynVec dynvecOffset_SerializeDynVec
        itemStart_0)
qed

lemma dynvecItem_SerializeDynVec:
  assumes "i < length items" "encodedSize items < 2 ^ 32"
  shows "dynvecItem (SerializeDynVec items) (length items) i = items ! i"
proof -
  from assms have ne: "items \<noteq> []" by auto
  have "(if Suc i < length items then dynvecOffset (SerializeDynVec items) (Suc i)
         else dynvecSize (SerializeDynVec items)) = itemStart items (Suc i)"
  proof (cases "Suc i < length items")
    case True
    then show ?thesis by (simp add: dynvecOffset_SerializeDynVec [OF True assms(2)])
  next
    case False
    with assms(1) have "Suc i = length items" by simp
    with False show ?thesis
      by (simp add: dynvecSize_SerializeDynVec [OF ne assms(2)] itemStart_length [symmetric])
  qed
  then show ?thesis
    unfolding dynvecItem_def
    by (simp only: dynvecOffset_SerializeDynVec [OF assms] item_at_itemStart [OF assms(1)])
qed

text \<open>
  Claim C5. \<open>SerializeDynVec\<close> of no items is exactly \<open>[4, 0, 0, 0]\<close>: the size 4, no
  offset table and no item bytes.
\<close>

theorem SerializeDynVec_empty: "SerializeDynVec [] = [4, 0, 0, 0]"
  by (rule SerializeDynVec_Nil)

text \<open>
  Claim C1. For a non-empty list of \<open>N\<close> items whose encoded size
  \<open>4 + 4 * N + sum of item lengths\<close> is below \<open>2 ^ 32\<close>: the output has that many bytes, the
  size recorded in bytes 0 to 3 is the length of the output, offset 0 is \<open>4 + 4 * N\<close>,
  offset \<open>i\<close> is offset \<open>i - 1\<close> plus the length of item \<open>i - 1\<close>, and the bytes of item
  \<open>i\<close> stand in the output from offset \<open>i\<close> on.
\<close>

theorem SerializeDynVec_header:
  assumes "items \<noteq> []" and "encodedSize items < 2 ^ 32"
  shows "length (SerializeDynVec items) = 4 + 4 * length items + sum_list (map length items)
    \<and> dynvecSize (SerializeDynVec items) = length (SerializeDynVec items)
    \<and> dynvecOffset (SerializeDynVec items) 0 = 4 + 4 * length items
    \<and> (\<forall>i. 0 < i \<and> i < length items \<longrightarrow>
          dynvecOffset (SerializeDynVec items) i =
            dynvecOffset (SerializeDynVec items) (i - 1) + length (items ! (i - 1)))
    \<and> (\<forall>i < length items.
          slice (SerializeDynVec items) (dynvecOffset (SerializeDynVec items) i)
            (dynvecOffset (SerializeDynVec items) i + length (items ! i)) = items ! i)"
proof (intro conjI allI impI)
  show "length (SerializeDynVec items) = 4 + 4 * length items + sum_list (map length items)"
    using length_SerializeDynVec [OF assms(1)] by (simp add: encodedSize_def)
  show "dynvecSize (SerializeDynVec items) = length (SerializeDynVec items)"
    by (simp add: dynvecSize_SerializeDynVec [OF assms] length_SerializeDynVec [OF assms(1)])
  show "dynvecOffset (SerializeDynVec items) 0 = 4 + 4 * length items"
    using assms by (simp add: dynvecOffset_SerializeDynVec itemStart_0)
next
  fix i assume "0 < i \<and> i < length items"
  then have i: "i < length items" and p: "i - 1 < length items" and s: "Suc (i - 1) = i"
    by auto
  have "itemStart items (Suc (i - 1)) = itemStart items (i - 1) + length (items ! (i - 1))"
    using p by (rule itemStart_Suc)
  then show "dynvecOffset (SerializeDynVec items) i =
      dynvecOffset (SerializeDynVec items) (i - 1) + length (items ! (i - 1))"
    by (simp only: dynvecOffset_SerializeDynVec [OF i assms(2)]
        dynvecOffset_SerializeDynVec [OF p assms(2)] s)
next
  fix i assume i: "i < length items"
  show "slice (SerializeDynVec items) (dynvecOffset (SerializeDynVec items) i)
            (dynvecOffset (SerializeDynVec items) i + length (items ! i)) = items ! i"
    using item_at_itemStart [OF i]
    by (simp add: dynvecOffset_SerializeDynVec [OF i assms(2)] itemStart_Suc [OF i])
qed

text \<open>
  Claim C1 at three items of lengths 3, 0 and 1.
\<close>

theorem SerializeDynVec_header_witness:
  "[[1, 2, 3], [], [9 :: byte]] \<noteq> [] \<and> encodedSize [[1, 2, 3], [], [9]] < 2 ^ 32
   \<and> length (SerializeDynVec [[1, 2, 3], [], [9]]) = 20
   \<and> dynvecSize (SerializeDynVec [[1, 2, 3], [], [9]]) = 20
   \<and> dynvecOffset (SerializeDynVec [[1, 2, 3], [], [9]]) 0 = 16
   \<and> dynvecOffset (SerializeDynVec [[1, 2, 3], [], [9]]) 1 = 19
   \<and> slice (SerializeDynVec [[1, 2, 3], [], [9]]) 16 19 = [1, 2, 3]"
proof -
  let ?items = "[[1, 2, 3], [], [9 :: byte]]"
  have h: "?items \<noteq> []" "encodedSize ?items < 2 ^ 32"
    by (simp_all add: encodedSize_def)
  note t = SerializeDynVec_header [OF h]
  from t have len: "length (SerializeDynVec ?items) = 20" by simp
  from t have sz: "dynvecSize (SerializeDynVec ?items) = 20" by simp
  from t have o0: "dynvecOffset (SerializeDynVec ?items) 0 = 16" by simp
  from t have "0 < (1::nat) \<and> 1 < length ?items \<longrightarrow>
      dynvecOffset (SerializeDynVec ?items) 1 =
        dynvecOffset (SerializeDynVec ?items) (1 - 1) + length (?items ! (1 - 1))"
    by blast
  with o0 have o1: "dynvecOffset (SerializeDynVec ?items) 1 = 19" by simp
  from t have "0 < length ?items \<longrightarrow>
      slice (SerializeDynVec ?items) (dynvecOffset (SerializeDynVec ?items) 0)
        (dynvecOffset (SerializeDynVec ?items) 0 + length (?items ! 0)) = ?items ! 0"
    by blast
  with o0 have s0: "slice (SerializeDynVec ?items) 16 19 = [1, 2, 3]" by simp
  from h len sz o0 o1 s0 show ?thesis by blast
qed

text \<open>
  Claim C3. For every list of items (none, one or many, of any lengths) whose encoded
  size is below \<open>2 ^ 32\<close>, slicing the output of \<open>SerializeDynVec\<close> at the offsets of its
  own header, item \<open>i\<close> from offset \<open>i\<close> to offset \<open>i + 1\<close> and the last item to the
  recorded total size, gives back the items.
\<close>

theorem SerializeDynVec_roundtrip:
  assumes "encodedSize items < 2 ^ 32"
  shows "sliceDynVec (SerializeDynVec items) = items"
proof (rule nth_equalityI)
  show "length (sliceDynVec (SerializeDynVec items)) = length items"
    by (simp add: sliceDynVec_def dynvecCount_SerializeDynVec [OF assms])
next
  fix i assume "i < length (sliceDynVec (SerializeDynVec items))"
  then have "i < length items"
    by (simp add: sliceDynVec_def dynvecCount_SerializeDynVec [OF assms])
  then show "sliceDynVec (SerializeDynVec items) ! i = items ! i"
    by (simp add: sliceDynVec_def dynvecCount_SerializeDynVec [OF assms]
        dynvecItem_SerializeDynVec [OF _ assms])
qed

text \<open>
  Claim C3 at three items of lengths 3, 0 and 1.
\<close>

theorem SerializeDynVec_roundtrip_witness:
  "encodedSize [[1, 2, 3], [], [9]] < 2 ^ 32
   \<and> sliceDynVec (SerializeDynVec [[1, 2, 3], [], [9]]) = [[1, 2, 3], [], [9]]"
  using SerializeDynVec_roundtrip [of "[[1, 2, 3], [], [9]]"] by (simp add: encodedSize_def)

section \<open>Table\<close>

text \<open>
  Claim C2 says that \<open>SerializeTable\<close> of no fields returns \<open>[4, 0, 0, 0]\<close>, as
  \<open>SerializeDynVec\<close> does. The code assigns to \<^verbatim>\<open>offsets[0]\<close> although the slice is
  empty: it panics with an index out of range and returns nothing.
\<close>

theorem SerializeTable_empty_panics:
  "SerializeTable [] = Inl IndexOutOfRange \<and> SerializeTable [] \<noteq> Inr [4, 0, 0, 0]"
  by (simp add: SerializeTable_def)

text \<open>
  Claim C10. On every non-empty list \<open>SerializeTable\<close> returns the bytes that
  \<open>SerializeDynVec\<close> returns.
\<close>

theorem SerializeTable_eq_SerializeDynVec:
  "items \<noteq> [] \<Longrightarrow> SerializeTable items = Inr (SerializeDynVec items)"
  by (simp add: SerializeTable_def SerializeDynVec_def Let_def split_beta)

text \<open>
  Claim C10 at three fields of lengths 3, 0 and 1.
\<close>

theorem SerializeTable_eq_SerializeDynVec_witness:
  "[[1, 2, 3], [], [9 :: byte]] \<noteq> []
   \<and> SerializeTable [[1, 2, 3], [], [9]] = Inr (SerializeDynVec [[1, 2, 3], [], [9]])"
  using SerializeTable_eq_SerializeDynVec [of "[[1, 2, 3], [], [9]]"] by simp

section \<open>Array\<close>

lemma SerializeArray_loop_ok:
  assumes "\<forall>j. i \<le> j \<and> j < length items \<longrightarrow>
             (\<exists>s. items ! j = Some s \<and> s (ws j) = (Inr (bs ! j), ws (Suc j)))"
    and "length ret = length items" and "length bs = length items" and "i \<le> length items"
    and "\<forall>j<i. ret ! j = bs ! j"
  shows "SerializeArray_loop items i ret (ws i) = (Inr bs, ws (length items))"
  using assms
proof (induction "length items - i" arbitrary: i ret)
  case 0
  then have i: "i = length items" by simp
  with 0 have "ret = bs" by (simp add: nth_equalityI)
  with i show ?case by (subst SerializeArray_loop.simps) simp
next
  case (Suc n)
  then have i: "i < length items" by simp
  with Suc.prems(1) obtain s where s: "items ! i = Some s" "s (ws i) = (Inr (bs ! i), ws (Suc i))"
    by auto
  have "SerializeArray_loop items (Suc i) (ret[i := bs ! i]) (ws (Suc i)) =
      (Inr bs, ws (length items))"
  proof (rule Suc.hyps(1))
    show "n = length items - Suc i" using Suc.hyps(2) by simp
    show "\<forall>j. Suc i \<le> j \<and> j < length items \<longrightarrow>
             (\<exists>s. items ! j = Some s \<and> s (ws j) = (Inr (bs ! j), ws (Suc j)))"
      using Suc.prems(1) by simp
    show "length (ret[i := bs ! i]) = length items" using Suc.prems(2) by simp
    show "length bs = length items" by (rule Suc.prems(3))
    show "Suc i \<le> length items" using i by simp
    show "\<forall>j<Suc i. ret[i := bs ! i] ! j = bs ! j"
      using Suc.prems(5) Suc.prems(2) i by (simp add: nth_list_update less_Suc_eq)
  qed
  with i s show ?case by (subst SerializeArray_loop.simps) simp
qed

lemma SerializeArray_loop_fail:
  assumes "i \<le> k" and "k < length items"
    and "\<forall>j. i \<le> j \<and> j < k \<longrightarrow>
             (\<exists>s b. items ! j = Some s \<and> s (ws j) = (Inr b, ws (Suc j)))"
    and "items ! k = Some s" and "s (ws k) = (Inl err, w')"
  shows "SerializeArray_loop items i ret (ws i) = (Inl (Error err), w')"
  using assms
proof (induction "k - i" arbitrary: i ret)
  case 0
  then have "i = k" by simp
  with 0 show ?case by (subst SerializeArray_loop.simps) simp
next
  case (Suc n)
  then have i: "i < k" "i < length items" by simp_all
  with Suc.prems(3) obtain t b where t: "items ! i = Some t" "t (ws i) = (Inr b, ws (Suc i))"
    by auto
  have "SerializeArray_loop items (Suc i) (ret[i := b]) (ws (Suc i)) = (Inl (Error err), w')"
  proof (rule Suc.hyps(1))
    show "n = k - Suc i" using Suc.hyps(2) by simp
    show "Suc i \<le> k" using i by simp
    show "k < length items" by (rule Suc.prems(2))
    show "\<forall>j. Suc i \<le> j \<and> j < k \<longrightarrow>
             (\<exists>s b. items ! j = Some s \<and> s (ws j) = (Inr b, ws (Suc j)))"
      using Suc.prems(3) by simp
    show "items ! k = Some s" by (rule Suc.prems(4))
    show "s (ws k) = (Inl err, w')" by (rule Suc.prems(5))
  qed
  with i t show ?case by (subst SerializeArray_loop.simps) simp
qed

text \<open>
  Claim C7. \<open>ws i\<close> is the state in which the \<^verbatim>\<open>Serialize\<close> of item \<open>i\<close> is called.

  If the items before item \<open>k\<close> return bytes and item \<open>k\<close> returns the error \<open>err\<close>, then
  \<open>SerializeArray\<close> returns that error and no list: the bytes of the earlier items are
  gone, and the state is the one the failing call left, whatever follows item \<open>k\<close> in
  the list (no later item is called).

  If every item returns bytes, \<open>SerializeArray\<close> returns the list of these byte
  sequences, in input order and one for each item.
\<close>

theorem SerializeArray_fail_fast:
  "(k < length items \<and>
    (\<forall>i<k. \<exists>s b. items ! i = Some s \<and> s (ws i) = (Inr b, ws (Suc i))) \<and>
    items ! k = Some s \<and> s (ws k) = (Inl err, w')
      \<longrightarrow> SerializeArray items (ws 0) = (Inl (Error err), w'))
   \<and>
   (length bs = length items \<and>
    (\<forall>i<length items. \<exists>s. items ! i = Some s \<and> s (ws i) = (Inr (bs ! i), ws (Suc i)))
      \<longrightarrow> SerializeArray items (ws 0) = (Inr bs, ws (length items)))"
proof (intro conjI impI)
  assume a: "k < length items \<and>
    (\<forall>i<k. \<exists>s b. items ! i = Some s \<and> s (ws i) = (Inr b, ws (Suc i))) \<and>
    items ! k = Some s \<and> s (ws k) = (Inl err, w')"
  have "SerializeArray_loop items 0 (replicate (length items) []) (ws 0) = (Inl (Error err), w')"
    by (rule SerializeArray_loop_fail [where k = k and s = s]) (use a in simp_all)
  then show "SerializeArray items (ws 0) = (Inl (Error err), w')"
    by (simp add: SerializeArray_def)
next
  assume a: "length bs = length items \<and>
    (\<forall>i<length items. \<exists>s. items ! i = Some s \<and> s (ws i) = (Inr (bs ! i), ws (Suc i)))"
  have "SerializeArray_loop items 0 (replicate (length items) []) (ws 0) =
      (Inr bs, ws (length items))"
    by (rule SerializeArray_loop_ok) (use a in simp_all)
  then show "SerializeArray items (ws 0) = (Inr bs, ws (length items))"
    by (simp add: SerializeArray_def)
qed

text \<open>
  Claim C7 with a call counter as the state: the second of three items fails (the third
  is not even callable), and two items succeed.
\<close>

theorem SerializeArray_fail_fast_witness:
  "SerializeArray [Some (\<lambda>w::nat. (Inr [1], Suc w)), Some (\<lambda>w. (Inl ''bad'', Suc w)), None] 0
     = (Inl (Error ''bad''), 2)
   \<and> SerializeArray [Some (\<lambda>w::nat. (Inr [1], Suc w)),
        Some (\<lambda>w. (Inr [2, 3] :: string + byte list, Suc w))] 0
     = (Inr [[1], [2, 3]], 2)"
proof -
  let ?a = "\<lambda>w::nat. (Inr [1] :: string + byte list, Suc w)"
  let ?b = "\<lambda>w::nat. (Inl ''bad'' :: string + byte list, Suc w)"
  let ?c = "\<lambda>w::nat. (Inr [2, 3] :: string + byte list, Suc w)"
  have "SerializeArray [Some ?a, Some ?b, None] ((\<lambda>i. i) 0) = (Inl (Error ''bad''), 2)"
    using SerializeArray_fail_fast [of 1 "[Some ?a, Some ?b, None]" "\<lambda>i. i" ?b "''bad''" 2]
    by simp
  moreover have "SerializeArray [Some ?a, Some ?c] ((\<lambda>i. i) 0) =
      (Inr [[1], [2, 3]], (\<lambda>i. i) (length [Some ?a, Some ?c]))"
    using SerializeArray_fail_fast [of _ "[Some ?a, Some ?c]" "\<lambda>i. i" _ _ _ "[[1], [2, 3]]"]
    by (simp add: less_Suc_eq nth_Cons')
  ultimately show ?thesis by simp
qed

section \<open>Option\<close>

text \<open>
  Claim C8. \<open>SerializeOption\<close> of nil returns the empty byte sequence and no error,
  without calling anything. Of a present item it returns what the item's \<^verbatim>\<open>Serialize\<close>
  returns, bytes or error, with nothing added.
\<close>

theorem SerializeOption_absent_present:
  "SerializeOption None w = (Inr [], w)
   \<and> SerializeOption (Some serialize) w = serialize w"
  by (simp add: SerializeOption_def)

end
